theory Spec2Isabelle
  imports Main
begin

section \<open>Data model (events/models.py)\<close>

text \<open>
  Django's \<open>User\<close>: only the primary key (model equality compares it) and the e-mail
  address (the recipient of notifications) are read by the code modelled here.
\<close>

record user =
  user_pk :: nat
  username :: string
  email :: string

text \<open>
  \<open>Event\<close>. Timestamps are integers (seconds on some clock); \<open>organizer\<close> is the
  foreign key to the user; \<open>max_attendees\<close> is nullable, \<open>None\<close> meaning no limit.
\<close>

record event =
  event_pk :: nat
  title :: string
  description :: string
  date :: int
  location :: string
  organizer :: nat
  max_attendees :: "int option"
  created_at :: int
  updated_at :: int

text \<open>\<open>EventRegistration.STATUS_CHOICES\<close>.\<close>

datatype reg_status = Confirmed | Cancelled | Waitlist

text \<open>
  \<open>EventRegistration\<close>: the two foreign keys hold primary keys. No query of the source
  reads the row's own primary key; a row is found by its (user, event) pair.
\<close>

record registration =
  reg_user :: nat
  reg_event :: nat
  status :: reg_status
  registered_at :: int
  reg_updated_at :: int

text \<open>A message handed to \<open>send_mail\<close> (events/emails.py).\<close>

record email_message =
  subject :: string
  message :: string
  from_email :: string
  recipient_list :: "string list"
  html_message :: string

text \<open>
  The state the views act on: the events table with its auto-increment counter, the
  registrations table, and the messages the mail backend has sent.
\<close>

record db =
  events :: "event list"
  registrations :: "registration list"
  next_event_pk :: nat
  outbox :: "email_message list"

text \<open>
  What an operation can answer instead of its result. The first seven are the
  validation failures written in the source; it reports each as a 400 response with
  the message given by \<open>error_message\<close>. The next seven are the failures of the
  serializer fields that the framework derives from the model (their messages name
  the limit where the placeholder stands). \<open>IntegrityError\<close> and
  \<open>MultipleObjectsReturned\<close> are exceptions of the ORM that the views do not catch,
  \<open>DoesNotExist\<close> is the one \<open>unregister\<close> catches, and \<open>OtherException\<close> is any
  exception of the template engine, the date formatting or the mail backend.
\<close>

datatype error =
    OwnerSelfRegistration
  | DuplicateRegistration
  | CapacityExceeded
  | EventInPast
  | NotRegistered
  | PastDateError
  | InvalidCapacityError
  | Required
  | NullNotAllowed
  | Blank
  | MaxLength
  | NullCharacters
  | MinValue
  | MaxValue
  | IntegrityError
  | MultipleObjectsReturned
  | DoesNotExist
  | OtherException string

fun error_message :: "error \<Rightarrow> string" where
  "error_message OwnerSelfRegistration = ''Organizer cannot register for their own event''"
| "error_message DuplicateRegistration = ''You are already registered for this event''"
| "error_message CapacityExceeded = ''This event has reached maximum capacity''"
| "error_message EventInPast = ''Cannot register for past events''"
| "error_message NotRegistered = ''You are not registered for this event''"
| "error_message PastDateError = ''Event date cannot be in the past''"
| "error_message InvalidCapacityError = ''Maximum attendees must be greater than 0''"
| "error_message Required = ''This field is required.''"
| "error_message NullNotAllowed = ''This field may not be null.''"
| "error_message Blank = ''This field may not be blank.''"
| "error_message MaxLength = ''Ensure this field has no more than {max_length} characters.''"
| "error_message NullCharacters = ''Null characters are not allowed.''"
| "error_message MinValue = ''Ensure this value is greater than or equal to {min_value}.''"
| "error_message MaxValue = ''Ensure this value is less than or equal to {max_value}.''"
| "error_message IntegrityError = ''IntegrityError''"
| "error_message MultipleObjectsReturned = ''MultipleObjectsReturned''"
| "error_message DoesNotExist = ''DoesNotExist''"
| "error_message (OtherException name) = name"

section \<open>Queries on the registrations table\<close>

text \<open>\<open>EventRegistration.objects.filter(user=user, event=event)\<close>, by primary keys.\<close>

definition objects_filter :: "registration list \<Rightarrow> nat \<Rightarrow> nat \<Rightarrow> registration list" where
  "objects_filter rows u e = filter (\<lambda>r. reg_user r = u \<and> reg_event r = e) rows"

text \<open>\<open>QuerySet.exists()\<close>.\<close>

definition exists_rows :: "registration list \<Rightarrow> bool" where
  "exists_rows rows = (rows \<noteq> [])"

text \<open>\<open>event.registrations.filter(status='confirmed')\<close>: the reverse relation of the
  foreign key, restricted to confirmed rows.\<close>

definition confirmed_registrations :: "registration list \<Rightarrow> event \<Rightarrow> registration list" where
  "confirmed_registrations rows e =
     filter (\<lambda>r. reg_event r = event_pk e \<and> status r = Confirmed) rows"

text \<open>\<open>Event.attendees_count\<close>.\<close>

definition attendees_count :: "registration list \<Rightarrow> event \<Rightarrow> int" where
  "attendees_count rows e = int (length (confirmed_registrations rows e))"

text \<open>\<open>Event.is_full\<close>.\<close>

definition is_full :: "registration list \<Rightarrow> event \<Rightarrow> bool" where
  "is_full rows e =
     (case max_attendees e of
        None \<Rightarrow> False
      | Some m \<Rightarrow> int (length (confirmed_registrations rows e)) \<ge> m)"

text \<open>
  \<open>EventDetailSerializer.get_is_registered\<close>. The request's user is \<open>None\<close> when there
  is no request or the user is anonymous.
\<close>

definition get_is_registered :: "registration list \<Rightarrow> user option \<Rightarrow> event \<Rightarrow> bool" where
  "get_is_registered rows req e =
     (case req of
        Some u \<Rightarrow> exists_rows (filter (\<lambda>r. reg_event r = event_pk e \<and>
                     reg_user r = user_pk u \<and> status r = Confirmed) rows)
      | None \<Rightarrow> False)"

text \<open>
  \<open>Meta.unique_together = ['user', 'event']\<close>: the constraint the database keeps on the
  registrations table.
\<close>

definition unique_together :: "registration list \<Rightarrow> bool" where
  "unique_together rows = distinct (map (\<lambda>r. (reg_user r, reg_event r)) rows)"

text \<open>
  \<open>EventRegistration.objects.create(user=..., event=..., status=...)\<close>: the database
  refuses a second row for the pair; \<open>auto_now_add\<close> and \<open>auto_now\<close> stamp the row.
\<close>

definition objects_create ::
  "registration list \<Rightarrow> int \<Rightarrow> nat \<Rightarrow> nat \<Rightarrow> reg_status \<Rightarrow> error + registration \<times> registration list"
where
  "objects_create rows now u e st =
     (if exists_rows (objects_filter rows u e) then Inl IntegrityError
      else let r = \<lparr>reg_user = u, reg_event = e, status = st,
                     registered_at = now, reg_updated_at = now\<rparr>
           in Inr (r, rows @ [r]))"

text \<open>\<open>EventRegistration.objects.get(user=user, event=event)\<close>.\<close>

definition objects_get :: "registration list \<Rightarrow> nat \<Rightarrow> nat \<Rightarrow> error + registration" where
  "objects_get rows u e =
     (case objects_filter rows u e of
        [] \<Rightarrow> Inl DoesNotExist
      | [r] \<Rightarrow> Inr r
      | _ \<Rightarrow> Inl MultipleObjectsReturned)"

text \<open>\<open>registration.delete()\<close>: one row leaves the table.\<close>

definition objects_delete :: "registration list \<Rightarrow> registration \<Rightarrow> registration list" where
  "objects_delete rows r = remove1 r rows"

section \<open>Registration (events/views.py, EventViewSet)\<close>

text \<open>
  The operations take the authenticated user (\<open>request.user\<close>) and the event that
  \<open>get_object()\<close> fetched, and return the answer with the new state of the tables.
  \<open>now\<close> is the clock read by \<open>auto_now_add\<close>.

  The three guards of \<open>register\<close>, in the order of the source: each returns its 400
  response without touching the table.
\<close>

definition register_checks :: "registration list \<Rightarrow> user \<Rightarrow> event \<Rightarrow> error option" where
  "register_checks rows u e =
     (if organizer e = user_pk u then Some OwnerSelfRegistration
      else if exists_rows (objects_filter rows (user_pk u) (event_pk e))
        then Some DuplicateRegistration
      else if is_full rows e then Some CapacityExceeded
      else None)"

text \<open>The insert that follows the guards: a confirmed row; an exception of the
  database is not caught by the view.\<close>

definition register_create ::
  "db \<Rightarrow> int \<Rightarrow> user \<Rightarrow> event \<Rightarrow> (error + registration) \<times> db"
where
  "register_create s now u e =
     (case objects_create (registrations s) now (user_pk u) (event_pk e) Confirmed of
        Inl exn \<Rightarrow> (Inl exn, s)
      | Inr (r, rows') \<Rightarrow> (Inr r, s\<lparr>registrations := rows'\<rparr>))"

text \<open>\<open>EventViewSet.register\<close>.\<close>

definition register :: "db \<Rightarrow> int \<Rightarrow> user \<Rightarrow> event \<Rightarrow> (error + registration) \<times> db" where
  "register s now u e =
     (case register_checks (registrations s) u e of
        Some err \<Rightarrow> (Inl err, s)
      | None \<Rightarrow> register_create s now u e)"

text \<open>\<open>EventViewSet.unregister\<close>: only \<open>DoesNotExist\<close> is caught.\<close>

definition unregister :: "db \<Rightarrow> user \<Rightarrow> event \<Rightarrow> (error + unit) \<times> db" where
  "unregister s u e =
     (case objects_get (registrations s) (user_pk u) (event_pk e) of
        Inr r \<Rightarrow> (Inr (), s\<lparr>registrations := objects_delete (registrations s) r\<rparr>)
      | Inl exn \<Rightarrow> (if exn = DoesNotExist then (Inl NotRegistered, s) else (Inl exn, s)))"

text \<open>
  \<open>register\<close> opens no transaction and takes no lock, so each of its queries commits on
  its own and two requests can interleave between queries. This is the schedule in
  which both requests run their guards before either inserts.
\<close>

definition register_overlapped ::
  "db \<Rightarrow> int \<Rightarrow> user \<Rightarrow> user \<Rightarrow> event \<Rightarrow> (error + registration) \<times> (error + registration) \<times> db"
where
  "register_overlapped s now u1 u2 e =
     (let c1 = register_checks (registrations s) u1 e;
          c2 = register_checks (registrations s) u2 e;
          (r1, s1) = (case c1 of Some err \<Rightarrow> (Inl err, s) | None \<Rightarrow> register_create s now u1 e);
          (r2, s2) = (case c2 of Some err \<Rightarrow> (Inl err, s1) | None \<Rightarrow> register_create s1 now u2 e)
      in (r1, r2, s2))"

text \<open>A run of \<open>register\<close> calls for one event, one after the other: the final state
  when every call succeeded, \<open>None\<close> as soon as one fails.\<close>

fun register_each :: "db \<Rightarrow> (int \<times> user) list \<Rightarrow> event \<Rightarrow> db option" where
  "register_each s [] e = Some s"
| "register_each s ((now, u) # calls) e =
     (case register s now u e of
        (Inr r, s') \<Rightarrow> register_each s' calls e
      | (Inl err, s') \<Rightarrow> None)"

text \<open>The order of checks as the specification words it: a list of (failed, error),
  of which the first failed one is reported.\<close>

fun first_failure :: "(bool \<times> error) list \<Rightarrow> error option" where
  "first_failure [] = None"
| "first_failure ((failed, err) # checks) = (if failed then Some err else first_failure checks)"

section \<open>Validation of a registration elsewhere in the code\<close>

text \<open>\<open>EventRegistration.clean\<close> (events/models.py): run by \<open>full_clean\<close>, which
  \<open>objects.create\<close> does not call.\<close>

definition registration_clean :: "int \<Rightarrow> nat \<Rightarrow> event \<Rightarrow> error option" where
  "registration_clean now u e =
     (if u = organizer e then Some OwnerSelfRegistration
      else if date e < now then Some EventInPast
      else None)"

text \<open>\<open>EventRegistrationCreateSerializer.validate_event\<close> (events/serializers.py).\<close>

definition validate_event :: "registration list \<Rightarrow> int \<Rightarrow> user \<Rightarrow> event \<Rightarrow> error + event" where
  "validate_event rows now u e =
     (if date e < now then Inl EventInPast
      else if organizer e = user_pk u then Inl OwnerSelfRegistration
      else if exists_rows (objects_filter rows (user_pk u) (event_pk e))
        then Inl DuplicateRegistration
      else if is_full rows e then Inl CapacityExceeded
      else Inr e)"

section \<open>Event creation (EventCreateUpdateSerializer, EventViewSet.create)\<close>

text \<open>
  What the request holds under a key of the serializer: nothing, null, or a value.
  Values are taken in the type of the field (text, a time, an integer); text is a
  list of code points below 256.
\<close>

datatype 'a input = Absent | Null | Value 'a

record event_draft =
  draft_title :: "string input"
  draft_description :: "string input"
  draft_date :: "int input"
  draft_location :: "string input"
  draft_max_attendees :: "int input"

text \<open>Python's \<open>str.strip()\<close>: the white space among the code points below 256.\<close>

definition is_space :: "char \<Rightarrow> bool" where
  "is_space c \<longleftrightarrow>
     c \<in> set [CHR 0x09, CHR 0x0A, CHR 0x0B, CHR 0x0C, CHR 0x0D, CHR 0x1C, CHR 0x1D,
                CHR 0x1E, CHR 0x1F, CHR 0x20, CHR 0x85, CHR 0xA0]"

definition strip :: "string \<Rightarrow> string" where
  "strip v = rev (dropWhile is_space (rev (dropWhile is_space v)))"

text \<open>
  The serializer field of a \<open>CharField\<close> or \<open>TextField\<close> of the model that is neither
  \<open>blank\<close> nor \<open>null\<close>: required, not null, not blank once trimmed; the trimmed text
  is then checked against \<open>max_length\<close> (when the model gives one) and for null
  characters.
\<close>

definition char_field :: "nat option \<Rightarrow> string input \<Rightarrow> error list + string" where
  "char_field max_length inp =
     (case inp of
        Absent \<Rightarrow> Inl [Required]
      | Null \<Rightarrow> Inl [NullNotAllowed]
      | Value v \<Rightarrow>
          if strip v = [] then Inl [Blank]
          else
            let w = strip v;
                errs = (case max_length of
                          Some n \<Rightarrow> if length w > n then [MaxLength] else []
                        | None \<Rightarrow> []) @
                       (if CHR 0x00 \<in> set w then [NullCharacters] else [])
            in if errs = [] then Inr w else Inl errs)"

text \<open>The serializer field of \<open>date\<close>: required and not null.\<close>

definition date_field :: "int input \<Rightarrow> error list + int" where
  "date_field inp =
     (case inp of
        Absent \<Rightarrow> Inl [Required]
      | Null \<Rightarrow> Inl [NullNotAllowed]
      | Value v \<Rightarrow> Inr v)"

text \<open>
  The serializer field of \<open>max_attendees\<close>, a nullable \<open>PositiveIntegerField\<close>: null is
  accepted, a value must lie between 0 and the largest value of the database
  backend in use, \<open>backend_max\<close>.
\<close>

definition integer_field :: "int \<Rightarrow> int input \<Rightarrow> error list + int option" where
  "integer_field backend_max inp =
     (case inp of
        Absent \<Rightarrow> Inr None
      | Null \<Rightarrow> Inr None
      | Value n \<Rightarrow>
          let errs = (if n > backend_max then [MaxValue] else []) @
                     (if n < 0 then [MinValue] else [])
          in if errs = [] then Inr (Some n) else Inl errs)"

text \<open>\<open>EventCreateUpdateSerializer.validate_date\<close>.\<close>

definition validate_date :: "int \<Rightarrow> int \<Rightarrow> error + int" where
  "validate_date now v = (if v < now then Inl PastDateError else Inr v)"

text \<open>\<open>EventCreateUpdateSerializer.validate_max_attendees\<close>.\<close>

definition validate_max_attendees :: "int option \<Rightarrow> error + int option" where
  "validate_max_attendees v =
     (case v of
        Some n \<Rightarrow> if n \<le> 0 then Inl InvalidCapacityError else Inr v
      | None \<Rightarrow> Inr v)"

text \<open>The framework validates a field and, only when that succeeded, calls the
  serializer's own validation method of that field on the value.\<close>

definition run_field :: "error list + 'a \<Rightarrow> ('a \<Rightarrow> error + 'a) \<Rightarrow> error list + 'a" where
  "run_field r validate =
     (case r of
        Inl errs \<Rightarrow> Inl errs
      | Inr v \<Rightarrow> (case validate v of Inl err \<Rightarrow> Inl [err] | Inr v' \<Rightarrow> Inr v'))"

definition field_errors :: "string \<Rightarrow> error list + 'a \<Rightarrow> (string \<times> error) list" where
  "field_errors name r = (case r of Inl errs \<Rightarrow> map (Pair name) errs | Inr v \<Rightarrow> [])"

record validated_data =
  valid_title :: string
  valid_description :: string
  valid_date :: int
  valid_location :: string
  valid_max_attendees :: "int option"

text \<open>
  \<open>serializer.is_valid\<close>: the fields run in the order of \<open>Meta.fields\<close> and the errors
  of all of them are collected under the field's name. An absent \<open>max_attendees\<close> is
  skipped (its validator is not called) and the model's default, null, is stored.
\<close>

definition date_result :: "int \<Rightarrow> event_draft \<Rightarrow> error list + int" where
  "date_result now d = run_field (date_field (draft_date d)) (validate_date now)"

definition max_attendees_result :: "int \<Rightarrow> event_draft \<Rightarrow> error list + int option" where
  "max_attendees_result backend_max d =
     (if draft_max_attendees d = Absent then Inr None
      else run_field (integer_field backend_max (draft_max_attendees d))
             validate_max_attendees)"

definition is_valid ::
  "int \<Rightarrow> int \<Rightarrow> event_draft \<Rightarrow> (string \<times> error) list + validated_data"
where
  "is_valid backend_max now d =
     (let t = char_field (Some 200) (draft_title d);
          ds = char_field None (draft_description d);
          dt = date_result now d;
          l = char_field (Some 300) (draft_location d);
          m = max_attendees_result backend_max d
      in case (t, ds, dt, l, m) of
           (Inr t', Inr ds', Inr dt', Inr l', Inr m') \<Rightarrow>
             Inr \<lparr>valid_title = t', valid_description = ds', valid_date = dt',
                   valid_location = l', valid_max_attendees = m'\<rparr>
         | _ \<Rightarrow>
             Inl (field_errors ''title'' t @ field_errors ''description'' ds @
                  field_errors ''date'' dt @ field_errors ''location'' l @
                  field_errors ''max_attendees'' m))"

text \<open>\<open>EventViewSet.create\<close>: \<open>is_valid(raise_exception=True)\<close> answers 400 with the
  errors; otherwise \<open>save(organizer=request.user)\<close> inserts the event.\<close>

definition create ::
  "int \<Rightarrow> db \<Rightarrow> int \<Rightarrow> user \<Rightarrow> event_draft \<Rightarrow> ((string \<times> error) list + event) \<times> db"
where
  "create backend_max s now u d =
     (case is_valid backend_max now d of
        Inl errs \<Rightarrow> (Inl errs, s)
      | Inr v \<Rightarrow>
          let ev = \<lparr>event_pk = next_event_pk s, title = valid_title v,
                     description = valid_description v, date = valid_date v,
                     location = valid_location v, organizer = user_pk u,
                     max_attendees = valid_max_attendees v,
                     created_at = now, updated_at = now\<rparr>
          in (Inr ev, s\<lparr>events := events s @ [ev], next_event_pk := Suc (next_event_pk s)\<rparr>))"

section \<open>Reachable states\<close>

definition initial_db :: db where
  "initial_db = \<lparr>events = [], registrations = [], next_event_pk = 1, outbox = []\<rparr>"

text \<open>The states the three operations produce from the empty tables; \<open>register\<close> and
  \<open>unregister\<close> act on an event of the table, as \<open>get_object()\<close> returns one.\<close>

inductive reachable :: "db \<Rightarrow> bool" where
  reach_init: "reachable initial_db"
| reach_create: "reachable s \<Longrightarrow> reachable (snd (create backend_max s now u d))"
| reach_register: "reachable s \<Longrightarrow> e \<in> set (events s) \<Longrightarrow> reachable (snd (register s now u e))"
| reach_unregister: "reachable s \<Longrightarrow> e \<in> set (events s) \<Longrightarrow> reachable (snd (unregister s u e))"

text \<open>What holds of every reachable state: the unique pair, primary keys handed out
  once and below the counter, rows that point to handed-out events, and no row of an
  organizer for their own event.\<close>

definition db_invariant :: "db \<Rightarrow> bool" where
  "db_invariant s =
     (unique_together (registrations s) \<and>
      distinct (map event_pk (events s)) \<and>
      (\<forall>e \<in> set (events s). event_pk e < next_event_pk s) \<and>
      (\<forall>r \<in> set (registrations s). reg_event r < next_event_pk s) \<and>
      (\<forall>r \<in> set (registrations s). \<forall>e \<in> set (events s).
         reg_event r = event_pk e \<longrightarrow> reg_user r \<noteq> organizer e))"

section \<open>Notification (events/emails.py)\<close>

text \<open>
  What \<open>send_registration_confirmation_email\<close> calls outside the repository: the
  date formatting, the template engine, \<open>strip_tags\<close>, the sender's address of the
  settings and the mail backend. Each call that can raise answers with the
  exception instead.
\<close>

record mail_env =
  strftime :: "int \<Rightarrow> string \<Rightarrow> error + string"
  render_to_string :: "string \<Rightarrow> user \<Rightarrow> event \<Rightarrow> string \<Rightarrow> error + string"
  strip_tags :: "string \<Rightarrow> string"
  default_from_email :: string
  send_mail :: "email_message \<Rightarrow> error option"

text \<open>
  \<open>send_registration_confirmation_email\<close>. The date is formatted and the template
  rendered before the \<open>try\<close>, so their exceptions reach the caller; only an exception
  of \<open>send_mail\<close> is caught and answered with \<open>False\<close>. The second component is the
  outbox afterwards.
\<close>

definition send_registration_confirmation_email ::
  "mail_env \<Rightarrow> email_message list \<Rightarrow> user \<Rightarrow> event \<Rightarrow>
     (error + bool) \<times> email_message list"
where
  "send_registration_confirmation_email env sent u e =
     (case strftime env (date e) ''%B %d, %Y at %I:%M %p'' of
        Inl exn \<Rightarrow> (Inl exn, sent)
      | Inr event_date \<Rightarrow>
          (case render_to_string env ''emails/registration_confirmation.html'' u e event_date of
             Inl exn \<Rightarrow> (Inl exn, sent)
           | Inr html \<Rightarrow>
               let msg = \<lparr>subject = ''Registration Confirmed: '' @ title e,
                            message = strip_tags env html,
                            from_email = default_from_email env,
                            recipient_list = [email u],
                            html_message = html\<rparr>
               in (case send_mail env msg of
                     None \<Rightarrow> (Inr True, sent @ [msg])
                   | Some exn \<Rightarrow> (Inr False, sent))))"

section \<open>Example data\<close>

definition alice :: user where
  "alice = \<lparr>user_pk = 1, username = ''alice'', email = ''alice@example.org''\<rparr>"

definition bob :: user where
  "bob = \<lparr>user_pk = 2, username = ''bob'', email = ''bob@example.org''\<rparr>"

definition carol :: user where
  "carol = \<lparr>user_pk = 3, username = ''carol'', email = ''carol@example.org''\<rparr>"

text \<open>An event of alice's, on day 1000, with room for one attendee.\<close>

definition workshop :: event where
  "workshop = \<lparr>event_pk = 1, title = ''Workshop'', description = ''Intro'', date = 1000,
                location = ''Room 1'', organizer = 1, max_attendees = Some 1,
                created_at = 10, updated_at = 10\<rparr>"

text \<open>The form alice sends to create it.\<close>

definition workshop_draft :: event_draft where
  "workshop_draft = \<lparr>draft_title = Value ''Workshop'', draft_description = Value ''Intro'',
                      draft_date = Value 1000, draft_location = Value ''Room 1'',
                      draft_max_attendees = Value 1\<rparr>"

text \<open>An event of alice's without a limit.\<close>

definition meetup :: event where
  "meetup = \<lparr>event_pk = 2, title = ''Meetup'', description = ''Open'', date = 1000,
              location = ''Park'', organizer = 1, max_attendees = None,
              created_at = 10, updated_at = 10\<rparr>"

definition workshop_db :: db where
  "workshop_db = \<lparr>events = [workshop], registrations = [], next_event_pk = 2,
                   outbox = []\<rparr>"

text \<open>A mail setup in which every call succeeds.\<close>

definition working_mail :: mail_env where
  "working_mail = \<lparr>strftime = (\<lambda>t fmt. Inr ''day 1000''),
                    render_to_string = (\<lambda>name u e event_date. Inr ''<p>Confirmed</p>''),
                    strip_tags = (\<lambda>html. ''Confirmed''),
                    default_from_email = ''noreply@example.org'',
                    send_mail = (\<lambda>msg. None)\<rparr>"

text \<open>The same setup with a mail backend that raises, and with the template missing.\<close>

definition failing_mail :: mail_env where
  "failing_mail = working_mail\<lparr>send_mail := (\<lambda>msg. Some (OtherException ''SMTPException''))\<rparr>"

definition missing_template_mail :: mail_env where
  "missing_template_mail =
     working_mail\<lparr>render_to_string :=
       (\<lambda>name u e event_date. Inl (OtherException ''TemplateDoesNotExist''))\<rparr>"

definition row :: "nat \<Rightarrow> nat \<Rightarrow> reg_status \<Rightarrow> registration" where
  "row u e st = \<lparr>reg_user = u, reg_event = e, status = st, registered_at = 20,
                 reg_updated_at = 20\<rparr>"

section \<open>Facts about the tables and the reachable states\<close>

lemma objects_get_cases:
  "objects_get rows u e = Inr r \<longleftrightarrow> objects_filter rows u e = [r]"
  "objects_get rows u e = Inl DoesNotExist \<longleftrightarrow> objects_filter rows u e = []"
  by (auto simp: objects_get_def split: list.splits)

lemma exists_rows_filter:
  "exists_rows (objects_filter rows u e) \<longleftrightarrow>
     (\<exists>r \<in> set rows. reg_user r = u \<and> reg_event r = e)"
  by (simp add: exists_rows_def objects_filter_def filter_empty_conv)

lemma unique_together_Cons:
  "unique_together (r # rows) \<longleftrightarrow>
     \<not> exists_rows (objects_filter rows (reg_user r) (reg_event r)) \<and> unique_together rows"
proof -
  have "(reg_user r, reg_event r) \<in> (\<lambda>r. (reg_user r, reg_event r)) ` set rows \<longleftrightarrow>
        (\<exists>x \<in> set rows. reg_user x = reg_user r \<and> reg_event x = reg_event r)"
    by (simp add: image_iff) metis
  then show ?thesis
    by (simp add: unique_together_def exists_rows_filter)
qed

lemma unique_filter_le1:
  "unique_together rows \<Longrightarrow> length (objects_filter rows u e) \<le> 1"
proof (induction rows)
  case Nil
  show ?case by (simp add: objects_filter_def)
next
  case (Cons r rows)
  from Cons.prems have nex: "\<not> exists_rows (objects_filter rows (reg_user r) (reg_event r))"
    and u: "unique_together rows"
    by (simp_all add: unique_together_Cons)
  show ?case
  proof (cases "reg_user r = u \<and> reg_event r = e")
    case True
    with nex have "objects_filter rows u e = []"
      by (simp add: exists_rows_def)
    with True show ?thesis by (simp add: objects_filter_def)
  next
    case False
    then have "objects_filter (r # rows) u e = objects_filter rows u e"
      by (simp add: objects_filter_def)
    with Cons.IH [OF u] show ?thesis by simp
  qed
qed

lemma unique_together_append:
  assumes "unique_together rows" and "\<not> exists_rows (objects_filter rows u e)"
  shows "unique_together (rows @ [\<lparr>reg_user = u, reg_event = e, status = st,
                     registered_at = now, reg_updated_at = now'\<rparr>])"
proof -
  from assms(2) have "(u, e) \<notin> (\<lambda>r. (reg_user r, reg_event r)) ` set rows"
    by (auto simp: exists_rows_filter)
  with assms(1) show ?thesis
    by (simp add: unique_together_def)
qed

lemma unique_together_remove1:
  "unique_together rows \<Longrightarrow> unique_together (remove1 r rows)"
  unfolding unique_together_def
proof (induction rows)
  case Nil
  show ?case by simp
next
  case (Cons a rows)
  then have d: "distinct (map (\<lambda>r. (reg_user r, reg_event r)) (remove1 r rows))"
    and n: "(reg_user a, reg_event a) \<notin> (\<lambda>r. (reg_user r, reg_event r)) ` set rows"
    by simp_all
  have "set (remove1 r rows) \<subseteq> set rows" by (rule set_remove1_subset)
  with n have "(reg_user a, reg_event a) \<notin> (\<lambda>r. (reg_user r, reg_event r)) ` set (remove1 r rows)"
    by blast
  with d Cons.prems show ?case by simp
qed

lemma register_cases:
  "register s now u e =
     (if organizer e = user_pk u then (Inl OwnerSelfRegistration, s)
      else if exists_rows (objects_filter (registrations s) (user_pk u) (event_pk e))
        then (Inl DuplicateRegistration, s)
      else if is_full (registrations s) e then (Inl CapacityExceeded, s)
      else (Inr \<lparr>reg_user = user_pk u, reg_event = event_pk e, status = Confirmed,
                  registered_at = now, reg_updated_at = now\<rparr>,
            s\<lparr>registrations := registrations s @
               [\<lparr>reg_user = user_pk u, reg_event = event_pk e, status = Confirmed,
                  registered_at = now, reg_updated_at = now\<rparr>]\<rparr>))"
  by (simp add: register_def register_checks_def register_create_def objects_create_def Let_def)

lemma db_invariantI:
  assumes "unique_together (registrations s)"
    and "distinct (map event_pk (events s))"
    and "\<And>e. e \<in> set (events s) \<Longrightarrow> event_pk e < next_event_pk s"
    and "\<And>r. r \<in> set (registrations s) \<Longrightarrow> reg_event r < next_event_pk s"
    and "\<And>r e. r \<in> set (registrations s) \<Longrightarrow> e \<in> set (events s) \<Longrightarrow>
           reg_event r = event_pk e \<Longrightarrow> reg_user r \<noteq> organizer e"
  shows "db_invariant s"
  using assms unfolding db_invariant_def by blast

lemma db_invariantD:
  assumes "db_invariant s"
  shows "unique_together (registrations s)"
    and "distinct (map event_pk (events s))"
    and "\<And>e. e \<in> set (events s) \<Longrightarrow> event_pk e < next_event_pk s"
    and "\<And>r. r \<in> set (registrations s) \<Longrightarrow> reg_event r < next_event_pk s"
    and "\<And>r e. r \<in> set (registrations s) \<Longrightarrow> e \<in> set (events s) \<Longrightarrow>
           reg_event r = event_pk e \<Longrightarrow> reg_user r \<noteq> organizer e"
  using assms unfolding db_invariant_def by blast+

lemma db_invariant_initial: "db_invariant initial_db"
  by (simp add: db_invariant_def initial_db_def unique_together_def)

lemma create_cases:
  "snd (create backend_max s now u d) = s \<or>
   (\<exists>ev. event_pk ev = next_event_pk s \<and>
      snd (create backend_max s now u d) =
        s\<lparr>events := events s @ [ev], next_event_pk := Suc (next_event_pk s)\<rparr>)"
proof (cases "is_valid backend_max now d")
  case (Inl errs)
  then show ?thesis by (simp add: create_def)
next
  case (Inr v)
  let ?ev = "\<lparr>event_pk = next_event_pk s, title = valid_title v,
              description = valid_description v, date = valid_date v,
              location = valid_location v, organizer = user_pk u,
              max_attendees = valid_max_attendees v,
              created_at = now, updated_at = now\<rparr>"
  have "snd (create backend_max s now u d) =
          s\<lparr>events := events s @ [?ev], next_event_pk := Suc (next_event_pk s)\<rparr>"
    using Inr by (simp add: create_def Let_def)
  moreover have "event_pk ?ev = next_event_pk s" by simp
  ultimately show ?thesis by blast
qed

lemma db_invariant_create:
  assumes inv: "db_invariant s"
  shows "db_invariant (snd (create backend_max s now u d))"
proof -
  from create_cases [of backend_max s now u d] show ?thesis
  proof
    assume "snd (create backend_max s now u d) = s"
    with inv show ?thesis by simp
  next
    assume "\<exists>ev. event_pk ev = next_event_pk s \<and>
      snd (create backend_max s now u d) =
        s\<lparr>events := events s @ [ev], next_event_pk := Suc (next_event_pk s)\<rparr>"
    then obtain ev where pk: "event_pk ev = next_event_pk s"
      and s': "snd (create backend_max s now u d) =
        s\<lparr>events := events s @ [ev], next_event_pk := Suc (next_event_pk s)\<rparr>"
      by blast
    let ?s' = "s\<lparr>events := events s @ [ev], next_event_pk := Suc (next_event_pk s)\<rparr>"
    have fresh: "event_pk ev \<notin> event_pk ` set (events s)"
    proof
      assume "event_pk ev \<in> event_pk ` set (events s)"
      then obtain e where "e \<in> set (events s)" and "event_pk e = event_pk ev" by force
      with db_invariantD(3) [OF inv, of e] pk show False by simp
    qed
    have "db_invariant ?s'"
    proof (rule db_invariantI)
      show "unique_together (registrations ?s')"
        using db_invariantD(1) [OF inv] by simp
      show "distinct (map event_pk (events ?s'))"
        using db_invariantD(2) [OF inv] fresh by simp
      show "event_pk e < next_event_pk ?s'" if "e \<in> set (events ?s')" for e
      proof -
        from that have "e \<in> set (events s) \<or> e = ev" by auto
        then show ?thesis
        proof
          assume "e \<in> set (events s)"
          from db_invariantD(3) [OF inv this] show ?thesis by simp
        next
          assume "e = ev"
          with pk show ?thesis by simp
        qed
      qed
      show "reg_event r < next_event_pk ?s'" if "r \<in> set (registrations ?s')" for r
      proof -
        from that have "r \<in> set (registrations s)" by simp
        from db_invariantD(4) [OF inv this] show ?thesis by simp
      qed
      show "reg_user r \<noteq> organizer e"
        if "r \<in> set (registrations ?s')" and "e \<in> set (events ?s')"
          and "reg_event r = event_pk e" for r e
      proof -
        from that(1) have r: "r \<in> set (registrations s)" by simp
        from that(2) have "e \<in> set (events s) \<or> e = ev" by auto
        then show ?thesis
        proof
          assume "e \<in> set (events s)"
          from db_invariantD(5) [OF inv r this that(3)] show ?thesis .
        next
          assume "e = ev"
          with db_invariantD(4) [OF inv r] that(3) pk show ?thesis by simp
        qed
      qed
    qed
    with s' show ?thesis by simp
  qed
qed

lemma register_state_cases:
  "snd (register s now u e) = s \<or>
   (organizer e \<noteq> user_pk u \<and>
    \<not> exists_rows (objects_filter (registrations s) (user_pk u) (event_pk e)) \<and>
    snd (register s now u e) =
      s\<lparr>registrations := registrations s @
          [\<lparr>reg_user = user_pk u, reg_event = event_pk e, status = Confirmed,
             registered_at = now, reg_updated_at = now\<rparr>]\<rparr>)"
  by (simp add: register_cases)

lemma db_invariant_register:
  assumes inv: "db_invariant s" and e: "e \<in> set (events s)"
  shows "db_invariant (snd (register s now u e))"
proof -
  let ?r = "\<lparr>reg_user = user_pk u, reg_event = event_pk e, status = Confirmed,
             registered_at = now, reg_updated_at = now\<rparr>"
  let ?s' = "s\<lparr>registrations := registrations s @ [?r]\<rparr>"
  from register_state_cases [of s now u e] show ?thesis
  proof
    assume "snd (register s now u e) = s"
    with inv show ?thesis by simp
  next
    assume "organizer e \<noteq> user_pk u \<and>
      \<not> exists_rows (objects_filter (registrations s) (user_pk u) (event_pk e)) \<and>
      snd (register s now u e) = ?s'"
    then have org: "organizer e \<noteq> user_pk u"
      and nex: "\<not> exists_rows (objects_filter (registrations s) (user_pk u) (event_pk e))"
      and s': "snd (register s now u e) = ?s'"
      by simp_all
    have same: "e' = e" if "e' \<in> set (events s)" and "event_pk e' = event_pk e" for e'
      using db_invariantD(2) [OF inv] that e by (simp add: distinct_map inj_on_def)
    have "db_invariant ?s'"
    proof (rule db_invariantI)
      show "unique_together (registrations ?s')"
        using unique_together_append [OF db_invariantD(1) [OF inv] nex] by simp
      show "distinct (map event_pk (events ?s'))"
        using db_invariantD(2) [OF inv] by simp
      show "event_pk e' < next_event_pk ?s'" if "e' \<in> set (events ?s')" for e'
        using db_invariantD(3) [OF inv, of e'] that by simp
      show "reg_event r < next_event_pk ?s'" if "r \<in> set (registrations ?s')" for r
      proof -
        from that have "r \<in> set (registrations s) \<or> r = ?r" by auto
        then show ?thesis
        proof
          assume "r \<in> set (registrations s)"
          from db_invariantD(4) [OF inv this] show ?thesis by simp
        next
          assume "r = ?r"
          with db_invariantD(3) [OF inv e] show ?thesis by simp
        qed
      qed
      show "reg_user r \<noteq> organizer e'"
        if "r \<in> set (registrations ?s')" and "e' \<in> set (events ?s')"
          and "reg_event r = event_pk e'" for r e'
      proof -
        from that(2) have e': "e' \<in> set (events s)" by simp
        from that(1) have "r \<in> set (registrations s) \<or> r = ?r" by auto
        then show ?thesis
        proof
          assume "r \<in> set (registrations s)"
          from db_invariantD(5) [OF inv this e' that(3)] show ?thesis .
        next
          assume r: "r = ?r"
          with that(3) have "event_pk e' = event_pk e" by simp
          with e' have "e' = e" by (rule same)
          with org r show ?thesis by simp
        qed
      qed
    qed
    with s' show ?thesis by simp
  qed
qed

lemma unregister_state_cases:
  "snd (unregister s u e) = s \<or>
   (\<exists>r. snd (unregister s u e) = s\<lparr>registrations := remove1 r (registrations s)\<rparr>)"
proof (cases "objects_get (registrations s) (user_pk u) (event_pk e)")
  case (Inl exn)
  then show ?thesis by (simp add: unregister_def)
next
  case (Inr r)
  then have "snd (unregister s u e) = s\<lparr>registrations := remove1 r (registrations s)\<rparr>"
    by (simp add: unregister_def objects_delete_def)
  then show ?thesis by blast
qed

lemma db_invariant_unregister:
  assumes inv: "db_invariant s"
  shows "db_invariant (snd (unregister s u e))"
proof -
  from unregister_state_cases [of s u e] show ?thesis
  proof
    assume "snd (unregister s u e) = s"
    with inv show ?thesis by simp
  next
    assume "\<exists>r. snd (unregister s u e) = s\<lparr>registrations := remove1 r (registrations s)\<rparr>"
    then obtain r where s': "snd (unregister s u e) =
        s\<lparr>registrations := remove1 r (registrations s)\<rparr>"
      by blast
    let ?s' = "s\<lparr>registrations := remove1 r (registrations s)\<rparr>"
    have sub: "x \<in> set (registrations s)" if "x \<in> set (registrations ?s')" for x
      using that set_remove1_subset [of r "registrations s"] by auto
    have "db_invariant ?s'"
    proof (rule db_invariantI)
      show "unique_together (registrations ?s')"
        using unique_together_remove1 [OF db_invariantD(1) [OF inv]] by simp
      show "distinct (map event_pk (events ?s'))"
        using db_invariantD(2) [OF inv] by simp
      show "event_pk e' < next_event_pk ?s'" if "e' \<in> set (events ?s')" for e'
        using db_invariantD(3) [OF inv, of e'] that by simp
      show "reg_event x < next_event_pk ?s'" if "x \<in> set (registrations ?s')" for x
        using db_invariantD(4) [OF inv sub [OF that]] by simp
      show "reg_user x \<noteq> organizer e'"
        if "x \<in> set (registrations ?s')" and "e' \<in> set (events ?s')"
          and "reg_event x = event_pk e'" for x e'
      proof -
        from that(2) have "e' \<in> set (events s)" by simp
        from db_invariantD(5) [OF inv sub [OF that(1)] this that(3)] show ?thesis .
      qed
    qed
    with s' show ?thesis by simp
  qed
qed

lemma reachable_invariant: "reachable s \<Longrightarrow> db_invariant s"
proof (induction rule: reachable.induct)
  case reach_init
  show ?case by (rule db_invariant_initial)
next
  case (reach_create s backend_max now u d)
  then show ?case by (simp add: db_invariant_create)
next
  case (reach_register s e now u)
  then show ?case by (simp add: db_invariant_register)
next
  case (reach_unregister s e u)
  then show ?case by (simp add: db_invariant_unregister)
qed

lemma register_success:
  assumes "fst (register s now u e) = Inr r"
  shows "organizer e \<noteq> user_pk u"
    and "r = \<lparr>reg_user = user_pk u, reg_event = event_pk e, status = Confirmed,
               registered_at = now, reg_updated_at = now\<rparr>"
    and "snd (register s now u e) = s\<lparr>registrations := registrations s @ [r]\<rparr>"
  using assms by (simp_all add: register_cases split: if_splits)

lemma confirmed_after_register:
  assumes "fst (register s now u e) = Inr r"
  shows "length (confirmed_registrations (registrations (snd (register s now u e))) e) =
         Suc (length (confirmed_registrations (registrations s) e))"
  using register_success [OF assms]
  by (simp add: confirmed_registrations_def)

lemma register_each_confirmed:
  "register_each s calls e = Some s' \<Longrightarrow>
   length (confirmed_registrations (registrations s') e) =
     length (confirmed_registrations (registrations s) e) + length calls"
proof (induction calls arbitrary: s)
  case Nil
  then show ?case by simp
next
  case (Cons c calls)
  obtain now u where c: "c = (now, u)" by (cases c)
  obtain res s1 where reg: "register s now u e = (res, s1)" by (cases "register s now u e")
  show ?case
  proof (cases res)
    case (Inl err)
    with Cons.prems c reg show ?thesis by simp
  next
    case (Inr r)
    with Cons.prems c reg have rest: "register_each s1 calls e = Some s'" by simp
    from Inr reg have "fst (register s now u e) = Inr r" by simp
    from confirmed_after_register [OF this] reg
    have "length (confirmed_registrations (registrations s1) e) =
          Suc (length (confirmed_registrations (registrations s) e))"
      by simp
    with Cons.IH [OF rest] show ?thesis by simp
  qed
qed

lemma register_outbox: "outbox (snd (register s now u e)) = outbox s"
  by (simp add: register_cases)


lemma date_result_past:
  "draft_date d = Value v \<Longrightarrow> v < now \<Longrightarrow> date_result now d = Inl [PastDateError]"
  by (simp add: date_result_def run_field_def date_field_def validate_date_def)

lemma date_result_ok:
  "draft_date d = Value v \<Longrightarrow> now \<le> v \<Longrightarrow> date_result now d = Inr v"
  by (simp add: date_result_def run_field_def date_field_def validate_date_def)

lemma max_attendees_result_zero:
  "0 \<le> backend_max \<Longrightarrow> draft_max_attendees d = Value 0 \<Longrightarrow>
   max_attendees_result backend_max d = Inl [InvalidCapacityError]"
  by (simp add: max_attendees_result_def run_field_def integer_field_def
        validate_max_attendees_def)

lemma max_attendees_result_negative:
  "0 \<le> backend_max \<Longrightarrow> draft_max_attendees d = Value n \<Longrightarrow> n < 0 \<Longrightarrow>
   max_attendees_result backend_max d = Inl [MinValue]"
  by (simp add: max_attendees_result_def run_field_def integer_field_def)

lemma max_attendees_result_ok:
  "draft_max_attendees d = Absent \<or> draft_max_attendees d = Null \<Longrightarrow>
   max_attendees_result backend_max d = Inr None"
  "draft_max_attendees d = Value n \<Longrightarrow> 0 < n \<Longrightarrow> n \<le> backend_max \<Longrightarrow>
   max_attendees_result backend_max d = Inr (Some n)"
  by (auto simp: max_attendees_result_def run_field_def integer_field_def
        validate_max_attendees_def)

lemma is_valid_errors:
  assumes "is_valid backend_max now d = Inl errs"
  shows "errs = field_errors ''title'' (char_field (Some 200) (draft_title d)) @
                field_errors ''description'' (char_field None (draft_description d)) @
                field_errors ''date'' (date_result now d) @
                field_errors ''location'' (char_field (Some 300) (draft_location d)) @
                field_errors ''max_attendees'' (max_attendees_result backend_max d)"
  using assms by (simp add: is_valid_def Let_def split: sum.splits)

lemma is_valid_fails:
  "date_result now d = Inl es \<Longrightarrow> \<exists>errs. is_valid backend_max now d = Inl errs"
  "max_attendees_result backend_max d = Inl es \<Longrightarrow> \<exists>errs. is_valid backend_max now d = Inl errs"
  by (simp_all add: is_valid_def Let_def split: sum.splits)

lemma is_valid_succeeds:
  assumes "char_field (Some 200) (draft_title d) = Inr t"
    and "char_field None (draft_description d) = Inr ds"
    and "date_result now d = Inr v"
    and "char_field (Some 300) (draft_location d) = Inr l"
    and "max_attendees_result backend_max d = Inr m"
  shows "is_valid backend_max now d =
           Inr \<lparr>valid_title = t, valid_description = ds, valid_date = v,
                 valid_location = l, valid_max_attendees = m\<rparr>"
  using assms by (simp add: is_valid_def Let_def)

lemma create_fails:
  "is_valid backend_max now d = Inl errs \<Longrightarrow> create backend_max s now u d = (Inl errs, s)"
  by (simp add: create_def)

section \<open>Capacity\<close>

text \<open>
  C4. \<open>is_full\<close> is false whenever \<open>max_attendees\<close> is unset, whatever the number of
  confirmed registrations; when it is set to \<open>m\<close>, \<open>is_full\<close> holds exactly when the
  number of the event's registrations with status confirmed is at least \<open>m\<close>.
\<close>

theorem is_full_contract:
  "(max_attendees e = None \<longrightarrow> \<not> is_full rows e) \<and>
   (\<forall>m. max_attendees e = Some m \<longrightarrow>
      is_full rows e =
        (int (length (filter (\<lambda>r. reg_event r = event_pk e \<and> status r = Confirmed) rows)) \<ge> m))"
  by (simp add: is_full_def confirmed_registrations_def)

theorem is_full_contract_witness:
  "max_attendees meetup = None \<and>
   \<not> is_full [row 2 2 Confirmed, row 3 2 Confirmed] meetup \<and>
   max_attendees workshop = Some 1 \<and>
   is_full [row 2 1 Confirmed, row 3 1 Cancelled] workshop \<and>
   \<not> is_full [row 3 1 Cancelled, row 2 2 Confirmed] workshop"
  using is_full_contract [of meetup "[row 2 2 Confirmed, row 3 2 Confirmed]"]
    is_full_contract [of workshop "[row 2 1 Confirmed, row 3 1 Cancelled]"]
    is_full_contract [of workshop "[row 3 1 Cancelled, row 2 2 Confirmed]"]
  by (simp add: meetup_def workshop_def row_def)

section \<open>The order of the checks of register\<close>

text \<open>
  C2. \<open>register\<close> checks ownership, then duplication, then capacity, and answers with
  the error of the first check that fails, leaving the tables as they were; when
  none fails it answers with a registration. In particular the organizer of the
  event always gets \<open>OwnerSelfRegistration\<close>, whatever the capacity and whether or not
  a registration of theirs exists.
\<close>

theorem register_check_order:
  "register_checks (registrations s) u e =
     first_failure
       [(organizer e = user_pk u, OwnerSelfRegistration),
        (exists_rows (objects_filter (registrations s) (user_pk u) (event_pk e)),
         DuplicateRegistration),
        (is_full (registrations s) e, CapacityExceeded)] \<and>
   (\<forall>err. register_checks (registrations s) u e = Some err \<longrightarrow>
      register s now u e = (Inl err, s)) \<and>
   (register_checks (registrations s) u e = None \<longrightarrow>
      (\<exists>r. fst (register s now u e) = Inr r)) \<and>
   (organizer e = user_pk u \<longrightarrow> register s now u e = (Inl OwnerSelfRegistration, s))"
  by (simp add: register_cases register_checks_def)

theorem register_check_order_witness:
  "organizer workshop = user_pk alice \<and>
   register_checks [row 1 1 Confirmed] alice workshop = Some OwnerSelfRegistration \<and>
   register (workshop_db\<lparr>registrations := [row 1 1 Confirmed]\<rparr>) 20 alice workshop =
     (Inl OwnerSelfRegistration, workshop_db\<lparr>registrations := [row 1 1 Confirmed]\<rparr>) \<and>
   register_checks [] bob workshop = None \<and>
   fst (register workshop_db 20 bob workshop) = Inr (row 2 1 Confirmed)"
  using register_check_order [of "workshop_db\<lparr>registrations := [row 1 1 Confirmed]\<rparr>" alice workshop 20]
    register_check_order [of workshop_db bob workshop 20]
  by (simp add: register_cases register_checks_def workshop_db_def workshop_def alice_def
        bob_def row_def objects_filter_def exists_rows_def is_full_def
        confirmed_registrations_def)

section \<open>Errors change nothing\<close>

text \<open>
  C10. Whenever \<open>register\<close> or \<open>unregister\<close> answers with an error, the state after the
  call is the state before it: no registration is created, deleted or modified.
\<close>

theorem errors_leave_registrations:
  "(\<forall>err. fst (register s now u e) = Inl err \<longrightarrow> snd (register s now u e) = s) \<and>
   (\<forall>err. fst (unregister s u e) = Inl err \<longrightarrow> snd (unregister s u e) = s)"
  by (auto simp: register_cases unregister_def split: sum.splits if_splits)

theorem errors_leave_registrations_witness:
  "fst (register workshop_db 20 alice workshop) = Inl OwnerSelfRegistration \<and>
   snd (register workshop_db 20 alice workshop) = workshop_db \<and>
   fst (unregister workshop_db bob workshop) = Inl NotRegistered \<and>
   snd (unregister workshop_db bob workshop) = workshop_db"
  using errors_leave_registrations [of workshop_db 20 alice workshop]
    errors_leave_registrations [of workshop_db 20 bob workshop]
  by (simp add: register_cases unregister_def objects_get_def objects_filter_def
        workshop_db_def workshop_def alice_def bob_def)

section \<open>Unregistration\<close>

text \<open>
  C5. \<open>unregister\<close> fails with \<open>NotRegistered\<close> when no registration for (user, event)
  exists. When one exists (on a table that keeps the pair unique) it succeeds, the row
  leaves the table (it is deleted, its status is not changed), no row for the pair
  remains, and \<open>get_is_registered\<close> is false afterwards.
\<close>

theorem unregister_contract:
  "(\<not> exists_rows (objects_filter (registrations s) (user_pk u) (event_pk e)) \<longrightarrow>
      unregister s u e = (Inl NotRegistered, s)) \<and>
   (unique_together (registrations s) \<and>
    exists_rows (objects_filter (registrations s) (user_pk u) (event_pk e)) \<longrightarrow>
      (\<exists>r. r \<in> set (registrations s) \<and> reg_user r = user_pk u \<and>
           reg_event r = event_pk e \<and>
           unregister s u e = (Inr (), s\<lparr>registrations := remove1 r (registrations s)\<rparr>)) \<and>
      length (registrations (snd (unregister s u e))) + 1 = length (registrations s) \<and>
      \<not> exists_rows (objects_filter (registrations (snd (unregister s u e)))
                        (user_pk u) (event_pk e)) \<and>
      \<not> get_is_registered (registrations (snd (unregister s u e))) (Some u) e)"
proof (intro conjI impI)
  assume "\<not> exists_rows (objects_filter (registrations s) (user_pk u) (event_pk e))"
  then have "objects_filter (registrations s) (user_pk u) (event_pk e) = []"
    by (simp add: exists_rows_def)
  then show "unregister s u e = (Inl NotRegistered, s)"
    by (simp add: unregister_def objects_get_def)
next
  let ?rows = "registrations s"
  let ?f = "objects_filter ?rows (user_pk u) (event_pk e)"
  assume "unique_together ?rows \<and> exists_rows ?f"
  then have uniq: "unique_together ?rows" and ex: "?f \<noteq> []"
    by (simp_all add: exists_rows_def)
  from unique_filter_le1 [OF uniq, of "user_pk u" "event_pk e"] ex
  obtain r where f: "?f = [r]"
    by (cases ?f) auto
  then have "r \<in> set ?f" by simp
  then have r: "r \<in> set ?rows" "reg_user r = user_pk u" "reg_event r = event_pk e"
    by (simp_all add: objects_filter_def)
  from f have un: "unregister s u e = (Inr (), s\<lparr>registrations := remove1 r ?rows\<rparr>)"
    by (simp add: unregister_def objects_get_def objects_delete_def)
  have gone: "objects_filter (remove1 r ?rows) (user_pk u) (event_pk e) = []"
    using f by (simp add: objects_filter_def filter_remove1)
  then have none: "\<And>x. x \<in> set (remove1 r ?rows) \<Longrightarrow>
      \<not> (reg_user x = user_pk u \<and> reg_event x = event_pk e)"
    by (simp add: objects_filter_def filter_empty_conv)
  show "\<exists>r. r \<in> set ?rows \<and> reg_user r = user_pk u \<and> reg_event r = event_pk e \<and>
          unregister s u e = (Inr (), s\<lparr>registrations := remove1 r ?rows\<rparr>)"
    using r un by blast
  show "length (registrations (snd (unregister s u e))) + 1 = length ?rows"
  proof -
    from r(1) have "?rows \<noteq> []" by auto
    then have "0 < length ?rows" by simp
    with r(1) un show ?thesis by (simp add: length_remove1)
  qed
  show "\<not> exists_rows (objects_filter (registrations (snd (unregister s u e)))
                        (user_pk u) (event_pk e))"
    using un gone by (simp add: exists_rows_def)
  show "\<not> get_is_registered (registrations (snd (unregister s u e))) (Some u) e"
    using un none by (auto simp: get_is_registered_def exists_rows_def filter_empty_conv)
qed

theorem unregister_contract_witness:
  "unregister workshop_db bob workshop = (Inl NotRegistered, workshop_db) \<and>
   unregister (workshop_db\<lparr>registrations := [row 3 2 Confirmed, row 2 1 Confirmed]\<rparr>)
      bob workshop =
     (Inr (), workshop_db\<lparr>registrations := [row 3 2 Confirmed]\<rparr>) \<and>
   \<not> get_is_registered [row 3 2 Confirmed] (Some bob) workshop"
  using unregister_contract [of workshop_db bob workshop]
    unregister_contract
      [of "workshop_db\<lparr>registrations := [row 3 2 Confirmed, row 2 1 Confirmed]\<rparr>" bob workshop]
  by (simp add: unregister_def objects_get_def objects_filter_def objects_delete_def
        get_is_registered_def exists_rows_def workshop_db_def workshop_def bob_def row_def)

section \<open>Event creation\<close>

text \<open>
  C8, as claimed: creating an event fails with \<open>InvalidCapacityError\<close> whenever
  \<open>max_attendees\<close> is given and not greater than 0. For a negative value it does not:
  \<open>max_attendees\<close> is a \<open>PositiveIntegerField\<close>, whose serializer field refuses the value
  with its own minimum-value error before \<open>validate_max_attendees\<close> is called.
\<close>

theorem create_negative_capacity_counterexample:
  "create 2147483647 initial_db 10 alice (workshop_draft\<lparr>draft_max_attendees := Value (- 1)\<rparr>) =
     (Inl [(''max_attendees'', MinValue)], initial_db) \<and>
   (''max_attendees'', InvalidCapacityError) \<notin> set [(''max_attendees'', MinValue)]"
  by (simp add: create_def is_valid_def date_result_def max_attendees_result_def
        run_field_def char_field_def date_field_def integer_field_def validate_date_def
        field_errors_def strip_def is_space_def Let_def workshop_draft_def)

text \<open>
  C8, amended: creating an event fails with \<open>PastDateError\<close> when the supplied date is
  earlier than now, and a date equal to or after now is not refused; it fails with
  \<open>InvalidCapacityError\<close> when \<open>max_attendees\<close> is 0 and with the minimum-value error
  of the field when it is negative. Whenever creation fails no event is created.
  When the text fields are valid, the date is not in the past and \<open>max_attendees\<close> is
  absent, null or between 1 and the largest value of the backend, the event is stored
  with the acting user as organizer.
\<close>

theorem create_validation:
  assumes mx: "0 \<le> backend_max"
  shows
  "(\<forall>v. draft_date d = Value v \<and> v < now \<longrightarrow>
      (\<exists>errs. create backend_max s now u d = (Inl errs, s) \<and>
         (''date'', PastDateError) \<in> set errs)) \<and>
   (\<forall>v. draft_date d = Value v \<and> now \<le> v \<longrightarrow>
      (\<forall>errs err. fst (create backend_max s now u d) = Inl errs \<longrightarrow>
         (''date'', err) \<notin> set errs)) \<and>
   (draft_max_attendees d = Value 0 \<longrightarrow>
      (\<exists>errs. create backend_max s now u d = (Inl errs, s) \<and>
         (''max_attendees'', InvalidCapacityError) \<in> set errs)) \<and>
   (\<forall>n. draft_max_attendees d = Value n \<and> n < 0 \<longrightarrow>
      (\<exists>errs. create backend_max s now u d = (Inl errs, s) \<and>
         (''max_attendees'', MinValue) \<in> set errs \<and>
         (''max_attendees'', InvalidCapacityError) \<notin> set errs)) \<and>
   (\<forall>errs. fst (create backend_max s now u d) = Inl errs \<longrightarrow>
      snd (create backend_max s now u d) = s) \<and>
   (\<forall>t ds l v.
      char_field (Some 200) (draft_title d) = Inr t \<and>
      char_field None (draft_description d) = Inr ds \<and>
      char_field (Some 300) (draft_location d) = Inr l \<and>
      draft_date d = Value v \<and> now \<le> v \<and>
      (draft_max_attendees d = Absent \<or> draft_max_attendees d = Null \<or>
       (\<exists>n. draft_max_attendees d = Value n \<and> 0 < n \<and> n \<le> backend_max)) \<longrightarrow>
      (\<exists>ev. fst (create backend_max s now u d) = Inr ev \<and>
         title ev = t \<and> description ev = ds \<and> location ev = l \<and> date ev = v \<and>
         max_attendees ev =
           (case draft_max_attendees d of Value n \<Rightarrow> Some n | _ \<Rightarrow> None) \<and>
         organizer ev = user_pk u \<and>
         events (snd (create backend_max s now u d)) = events s @ [ev] \<and>
         registrations (snd (create backend_max s now u d)) = registrations s))"
proof (intro conjI allI impI)
  fix v assume a: "draft_date d = Value v \<and> v < now"
  then have dr: "date_result now d = Inl [PastDateError]"
    by (simp add: date_result_past)
  from is_valid_fails(1) [OF dr] obtain errs
    where iv: "is_valid backend_max now d = Inl errs" by blast
  from is_valid_errors [OF iv] dr have "(''date'', PastDateError) \<in> set errs"
    by (simp add: field_errors_def)
  with create_fails [OF iv]
  show "\<exists>errs. create backend_max s now u d = (Inl errs, s) \<and>
          (''date'', PastDateError) \<in> set errs"
    by blast
next
  fix v errs err
  assume a: "draft_date d = Value v \<and> now \<le> v"
    and f: "fst (create backend_max s now u d) = Inl errs"
  from a have dr: "date_result now d = Inr v" by (simp add: date_result_ok)
  from f have iv: "is_valid backend_max now d = Inl errs"
    by (cases "is_valid backend_max now d") (simp_all add: create_def Let_def)
  from is_valid_errors [OF iv] dr show "(''date'', err) \<notin> set errs"
    by (auto simp: field_errors_def split: sum.splits)
next
  assume a: "draft_max_attendees d = Value 0"
  with mx have mr: "max_attendees_result backend_max d = Inl [InvalidCapacityError]"
    by (simp add: max_attendees_result_zero)
  from is_valid_fails(2) [OF mr] obtain errs
    where iv: "is_valid backend_max now d = Inl errs" by blast
  from is_valid_errors [OF iv] mr have "(''max_attendees'', InvalidCapacityError) \<in> set errs"
    by (simp add: field_errors_def)
  with create_fails [OF iv]
  show "\<exists>errs. create backend_max s now u d = (Inl errs, s) \<and>
          (''max_attendees'', InvalidCapacityError) \<in> set errs"
    by blast
next
  fix n assume a: "draft_max_attendees d = Value n \<and> n < 0"
  with mx have mr: "max_attendees_result backend_max d = Inl [MinValue]"
    by (simp add: max_attendees_result_negative)
  from is_valid_fails(2) [OF mr] obtain errs
    where iv: "is_valid backend_max now d = Inl errs" by blast
  from is_valid_errors [OF iv] mr
  have "(''max_attendees'', MinValue) \<in> set errs"
    and "(''max_attendees'', InvalidCapacityError) \<notin> set errs"
    by (auto simp: field_errors_def split: sum.splits)
  with create_fails [OF iv]
  show "\<exists>errs. create backend_max s now u d = (Inl errs, s) \<and>
          (''max_attendees'', MinValue) \<in> set errs \<and>
          (''max_attendees'', InvalidCapacityError) \<notin> set errs"
    by blast
next
  fix errs assume f: "fst (create backend_max s now u d) = Inl errs"
  then have "is_valid backend_max now d = Inl errs"
    by (cases "is_valid backend_max now d") (simp_all add: create_def Let_def)
  from create_fails [OF this] show "snd (create backend_max s now u d) = s" by simp
next
  fix t ds l v
  assume a: "char_field (Some 200) (draft_title d) = Inr t \<and>
      char_field None (draft_description d) = Inr ds \<and>
      char_field (Some 300) (draft_location d) = Inr l \<and>
      draft_date d = Value v \<and> now \<le> v \<and>
      (draft_max_attendees d = Absent \<or> draft_max_attendees d = Null \<or>
       (\<exists>n. draft_max_attendees d = Value n \<and> 0 < n \<and> n \<le> backend_max))"
  let ?m = "case draft_max_attendees d of Value n \<Rightarrow> Some n | _ \<Rightarrow> None"
  from a have dr: "date_result now d = Inr v" by (simp add: date_result_ok)
  from a have mr: "max_attendees_result backend_max d = Inr ?m"
    by (auto simp: max_attendees_result_ok)
  from a have "is_valid backend_max now d =
      Inr \<lparr>valid_title = t, valid_description = ds, valid_date = v,
            valid_location = l, valid_max_attendees = ?m\<rparr>"
    using dr mr by (simp add: is_valid_succeeds)
  then show "\<exists>ev. fst (create backend_max s now u d) = Inr ev \<and>
         title ev = t \<and> description ev = ds \<and> location ev = l \<and> date ev = v \<and>
         max_attendees ev = ?m \<and> organizer ev = user_pk u \<and>
         events (snd (create backend_max s now u d)) = events s @ [ev] \<and>
         registrations (snd (create backend_max s now u d)) = registrations s"
    by (simp add: create_def Let_def)
qed

theorem create_validation_witness:
  "create 2147483647 initial_db 2000 alice workshop_draft =
     (Inl [(''date'', PastDateError)], initial_db) \<and>
   create 2147483647 initial_db 10 alice (workshop_draft\<lparr>draft_max_attendees := Value 0\<rparr>) =
     (Inl [(''max_attendees'', InvalidCapacityError)], initial_db) \<and>
   create 2147483647 initial_db 10 alice (workshop_draft\<lparr>draft_max_attendees := Value (- 1)\<rparr>) =
     (Inl [(''max_attendees'', MinValue)], initial_db) \<and>
   create 2147483647 initial_db 1000 alice workshop_draft =
     (Inr (workshop\<lparr>created_at := 1000, updated_at := 1000\<rparr>),
      workshop_db\<lparr>events := [workshop\<lparr>created_at := 1000, updated_at := 1000\<rparr>]\<rparr>)"
proof -
  have mx: "(0::int) \<le> 2147483647" by simp
  note w1 = create_validation [OF mx, of workshop_draft 2000 initial_db alice]
  note w2 = create_validation [OF mx, of "workshop_draft\<lparr>draft_max_attendees := Value 0\<rparr>"
               10 initial_db alice]
  note w3 = create_validation [OF mx, of "workshop_draft\<lparr>draft_max_attendees := Value (- 1)\<rparr>"
               10 initial_db alice]
  note w4 = create_validation [OF mx, of workshop_draft 1000 initial_db alice]
  show ?thesis
    using w1 w2 w3 w4
    by (simp add: create_def is_valid_def date_result_def max_attendees_result_def
          run_field_def char_field_def date_field_def integer_field_def validate_date_def
          validate_max_attendees_def field_errors_def strip_def is_space_def Let_def
          initial_db_def workshop_draft_def workshop_db_def workshop_def alice_def)
qed

section \<open>Registration for a past event\<close>

text \<open>
  C6. The claim: a \<open>register\<close> call for an event whose date is in the past fails with
  \<open>EventInPast\<close> and creates no registration. The view does not look at the date:
  for the workshop of day 1000, bob's call on day 2000 is answered with a confirmed
  registration, which is stored. The two validations of the same repository that
  do check the date, \<open>EventRegistration.clean\<close> and \<open>validate_event\<close>, refuse the same
  input; the view calls neither.
\<close>

theorem register_past_event_accepted:
  "date workshop < 2000 \<and>
   register workshop_db 2000 bob workshop =
     (Inr \<lparr>reg_user = 2, reg_event = 1, status = Confirmed, registered_at = 2000,
            reg_updated_at = 2000\<rparr>,
      workshop_db\<lparr>registrations :=
        [\<lparr>reg_user = 2, reg_event = 1, status = Confirmed, registered_at = 2000,
           reg_updated_at = 2000\<rparr>]\<rparr>) \<and>
   registration_clean 2000 (user_pk bob) workshop = Some EventInPast \<and>
   validate_event (registrations workshop_db) 2000 bob workshop = Inl EventInPast"
  by (simp add: register_cases registration_clean_def validate_event_def workshop_db_def
        workshop_def bob_def objects_filter_def exists_rows_def is_full_def
        confirmed_registrations_def)

section \<open>A successful registration and its notification\<close>

text \<open>
  C7. The claim: every successful \<open>register\<close> stores a registration with status
  confirmed and dispatches a confirmation notification to the user, whose failure
  neither fails the call nor removes the registration. The view stores the confirmed
  registration and dispatches nothing: \<open>send_registration_confirmation_email\<close> is
  defined in the repository and called from nowhere, so the outbox after a
  \<open>register\<close> is the outbox before it. For bob's call for the workshop the answer is
  the confirmed registration and the outbox stays empty, where a call of the e-mail
  function would have put one message to bob there. Were it called, a raising mail
  backend would be answered with \<open>False\<close>, but a missing template raises before the
  \<open>try\<close> and reaches the caller.
\<close>

theorem register_dispatches_nothing:
  "outbox (snd (register s now u e)) = outbox s \<and>
   register workshop_db 20 bob workshop =
     (Inr (row 2 1 Confirmed), workshop_db\<lparr>registrations := [row 2 1 Confirmed]\<rparr>) \<and>
   outbox (snd (register workshop_db 20 bob workshop)) = [] \<and>
   send_registration_confirmation_email working_mail [] bob workshop =
     (Inr True,
      [\<lparr>subject = ''Registration Confirmed: Workshop'', message = ''Confirmed'',
         from_email = ''noreply@example.org'', recipient_list = [''bob@example.org''],
         html_message = ''<p>Confirmed</p>''\<rparr>]) \<and>
   send_registration_confirmation_email failing_mail [] bob workshop = (Inr False, []) \<and>
   send_registration_confirmation_email missing_template_mail [] bob workshop =
     (Inl (OtherException ''TemplateDoesNotExist''), [])"
proof (intro conjI)
  show "outbox (snd (register s now u e)) = outbox s"
    by (rule register_outbox)
  show "register workshop_db 20 bob workshop =
     (Inr (row 2 1 Confirmed), workshop_db\<lparr>registrations := [row 2 1 Confirmed]\<rparr>)"
    by (simp add: register_cases row_def workshop_db_def workshop_def bob_def
          objects_filter_def exists_rows_def is_full_def confirmed_registrations_def)
  show "outbox (snd (register workshop_db 20 bob workshop)) = []"
    by (simp add: register_outbox workshop_db_def)
  show "send_registration_confirmation_email working_mail [] bob workshop =
     (Inr True,
      [\<lparr>subject = ''Registration Confirmed: Workshop'', message = ''Confirmed'',
         from_email = ''noreply@example.org'', recipient_list = [''bob@example.org''],
         html_message = ''<p>Confirmed</p>''\<rparr>])"
    by (simp add: send_registration_confirmation_email_def working_mail_def bob_def
          workshop_def)
  show "send_registration_confirmation_email failing_mail [] bob workshop = (Inr False, [])"
    by (simp add: send_registration_confirmation_email_def failing_mail_def
          working_mail_def bob_def workshop_def)
  show "send_registration_confirmation_email missing_template_mail [] bob workshop =
     (Inl (OtherException ''TemplateDoesNotExist''), [])"
    by (simp add: send_registration_confirmation_email_def missing_template_mail_def
          working_mail_def bob_def workshop_def)
qed

section \<open>Registrations that are not confirmed\<close>

text \<open>
  C9, as claimed: whenever a registration for (user, event) with status cancelled or
  waitlist exists, \<open>register\<close> fails with \<open>DuplicateRegistration\<close>. It does not when the
  user is the organizer of the event: the ownership check comes first.
\<close>

theorem duplicate_for_organizer_counterexample:
  "row 1 1 Cancelled \<in> set (registrations (workshop_db\<lparr>registrations := [row 1 1 Cancelled]\<rparr>)) \<and>
   reg_user (row 1 1 Cancelled) = user_pk alice \<and>
   reg_event (row 1 1 Cancelled) = event_pk workshop \<and>
   status (row 1 1 Cancelled) = Cancelled \<and>
   unique_together (registrations (workshop_db\<lparr>registrations := [row 1 1 Cancelled]\<rparr>)) \<and>
   fst (register (workshop_db\<lparr>registrations := [row 1 1 Cancelled]\<rparr>) 20 alice workshop) =
     Inl OwnerSelfRegistration \<and>
   fst (register (workshop_db\<lparr>registrations := [row 1 1 Cancelled]\<rparr>) 20 alice workshop) \<noteq>
     Inl DuplicateRegistration"
  by (simp add: register_cases workshop_db_def workshop_def alice_def row_def
        unique_together_def)

text \<open>
  C9, amended: on a table that keeps (user, event) unique, whenever a registration
  for (user, event) with status cancelled or waitlist exists and the user is not the
  organizer of the event, \<open>register\<close> fails with \<open>DuplicateRegistration\<close> and changes
  nothing, although \<open>get_is_registered\<close> is false and the row counts neither for
  \<open>attendees_count\<close> nor for \<open>is_full\<close>.
\<close>

theorem unconfirmed_row_blocks_register:
  assumes r: "r \<in> set (registrations s)"
    and ru: "reg_user r = user_pk u" and re: "reg_event r = event_pk e"
    and st: "status r = Cancelled \<or> status r = Waitlist"
    and uniq: "unique_together (registrations s)"
    and org: "organizer e \<noteq> user_pk u"
  shows "register s now u e = (Inl DuplicateRegistration, s) \<and>
         \<not> get_is_registered (registrations s) (Some u) e \<and>
         r \<notin> set (confirmed_registrations (registrations s) e) \<and>
         attendees_count (remove1 r (registrations s)) e = attendees_count (registrations s) e \<and>
         is_full (remove1 r (registrations s)) e = is_full (registrations s) e"
proof -
  let ?rows = "registrations s"
  from st have nc: "status r \<noteq> Confirmed" by auto
  from r ru re have ex: "exists_rows (objects_filter ?rows (user_pk u) (event_pk e))"
    by (auto simp: exists_rows_filter)
  with org have dup: "register s now u e = (Inl DuplicateRegistration, s)"
    by (simp add: register_cases)
  have only: "x = r" if "x \<in> set ?rows" and "reg_user x = user_pk u"
    and "reg_event x = event_pk e" for x
  proof -
    from that r ru re have "x \<in> set (objects_filter ?rows (user_pk u) (event_pk e))"
      and "r \<in> set (objects_filter ?rows (user_pk u) (event_pk e))"
      by (simp_all add: objects_filter_def)
    moreover from unique_filter_le1 [OF uniq, of "user_pk u" "event_pk e"]
    obtain y where "objects_filter ?rows (user_pk u) (event_pk e) = [] \<or>
        objects_filter ?rows (user_pk u) (event_pk e) = [y]"
      by (cases "objects_filter ?rows (user_pk u) (event_pk e)") auto
    ultimately show ?thesis by auto
  qed
  have notreg: "\<not> get_is_registered ?rows (Some u) e"
  proof -
    have "\<not> (reg_event x = event_pk e \<and> reg_user x = user_pk u \<and> status x = Confirmed)"
      if "x \<in> set ?rows" for x
      using only [OF that] nc by auto
    then show ?thesis
      by (simp add: get_is_registered_def exists_rows_def filter_empty_conv)
  qed
  have conf: "confirmed_registrations (remove1 r ?rows) e = confirmed_registrations ?rows e"
    using nc by (simp add: confirmed_registrations_def filter_remove1)
  have ac: "attendees_count (remove1 r ?rows) e = attendees_count ?rows e"
    unfolding attendees_count_def conf ..
  have fu: "is_full (remove1 r ?rows) e = is_full ?rows e"
    unfolding is_full_def conf ..
  have "r \<notin> set (confirmed_registrations ?rows e)"
    using nc by (simp add: confirmed_registrations_def)
  with dup notreg ac fu show ?thesis
    by simp
qed

theorem unconfirmed_row_blocks_register_witness:
  "register (workshop_db\<lparr>registrations := [row 2 1 Waitlist]\<rparr>) 20 bob workshop =
     (Inl DuplicateRegistration, workshop_db\<lparr>registrations := [row 2 1 Waitlist]\<rparr>) \<and>
   \<not> get_is_registered [row 2 1 Waitlist] (Some bob) workshop \<and>
   attendees_count [row 2 1 Waitlist] workshop = 0 \<and>
   \<not> is_full [row 2 1 Waitlist] workshop"
proof -
  let ?s = "workshop_db\<lparr>registrations := [row 2 1 Waitlist]\<rparr>"
  have "row 2 1 Waitlist \<in> set (registrations ?s)" by simp
  moreover have "reg_user (row 2 1 Waitlist) = user_pk bob"
    by (simp add: row_def bob_def)
  moreover have "reg_event (row 2 1 Waitlist) = event_pk workshop"
    by (simp add: row_def workshop_def)
  moreover have "status (row 2 1 Waitlist) = Cancelled \<or> status (row 2 1 Waitlist) = Waitlist"
    by (simp add: row_def)
  moreover have "unique_together (registrations ?s)"
    by (simp add: unique_together_def)
  moreover have "organizer workshop \<noteq> user_pk bob"
    by (simp add: workshop_def bob_def)
  ultimately have "register ?s 20 bob workshop = (Inl DuplicateRegistration, ?s) \<and>
      \<not> get_is_registered (registrations ?s) (Some bob) workshop \<and>
      row 2 1 Waitlist \<notin> set (confirmed_registrations (registrations ?s) workshop) \<and>
      attendees_count (remove1 (row 2 1 Waitlist) (registrations ?s)) workshop =
        attendees_count (registrations ?s) workshop \<and>
      is_full (remove1 (row 2 1 Waitlist) (registrations ?s)) workshop =
        is_full (registrations ?s) workshop"
    by (rule unconfirmed_row_blocks_register)
  then show ?thesis
    by (simp add: attendees_count_def is_full_def confirmed_registrations_def workshop_def)
qed

section \<open>Capacity under a run of registrations\<close>

text \<open>
  C3, as claimed: after N successful registrations the next call fails with
  \<open>CapacityExceeded\<close> even when the calls are issued concurrently. The view runs
  its guards and its insert as separate queries, outside any transaction: when the
  calls of bob and carol for the workshop (one place) overlap, both pass the
  guards, both are answered with a registration, and the event has two attendees.
\<close>

theorem capacity_overlapped_counterexample:
  "max_attendees workshop = Some 1 \<and>
   register_overlapped workshop_db 20 bob carol workshop =
     (Inr (row 2 1 Confirmed), Inr (row 3 1 Confirmed),
      workshop_db\<lparr>registrations := [row 2 1 Confirmed, row 3 1 Confirmed]\<rparr>) \<and>
   fst (snd (register_overlapped workshop_db 20 bob carol workshop)) \<noteq> Inl CapacityExceeded \<and>
   attendees_count [row 2 1 Confirmed, row 3 1 Confirmed] workshop = 2"
  by (simp add: register_overlapped_def register_checks_def register_create_def
        objects_create_def Let_def workshop_db_def workshop_def bob_def carol_def row_def
        objects_filter_def exists_rows_def is_full_def confirmed_registrations_def
        attendees_count_def)

text \<open>
  C3, amended: for an event with \<open>max_attendees = N\<close>, after N \<open>register\<close> calls that
  ran one after the other and all succeeded, a \<open>register\<close> call by a further user
  who is not the organizer and has no registration for the event fails with
  \<open>CapacityExceeded\<close>.
\<close>

theorem capacity_after_n_registrations:
  assumes cap: "max_attendees e = Some (int N)"
    and n: "length calls = N"
    and run: "register_each s calls e = Some s'"
    and org: "organizer e \<noteq> user_pk u"
    and new: "\<not> exists_rows (objects_filter (registrations s') (user_pk u) (event_pk e))"
  shows "register s' now u e = (Inl CapacityExceeded, s')"
proof -
  from register_each_confirmed [OF run] n
  have "N \<le> length (confirmed_registrations (registrations s') e)" by simp
  with cap have "is_full (registrations s') e" by (simp add: is_full_def)
  with org new show ?thesis by (simp add: register_cases)
qed

theorem capacity_after_n_registrations_witness:
  "register_each workshop_db [(20, bob)] workshop =
     Some (workshop_db\<lparr>registrations := [row 2 1 Confirmed]\<rparr>) \<and>
   register (workshop_db\<lparr>registrations := [row 2 1 Confirmed]\<rparr>) 30 carol workshop =
     (Inl CapacityExceeded, workshop_db\<lparr>registrations := [row 2 1 Confirmed]\<rparr>)"
proof -
  let ?s' = "workshop_db\<lparr>registrations := [row 2 1 Confirmed]\<rparr>"
  have cap: "max_attendees workshop = Some (int 1)" by (simp add: workshop_def)
  have n: "length [(20::int, bob)] = 1" by simp
  have run: "register_each workshop_db [(20, bob)] workshop = Some ?s'"
    by (simp add: register_cases workshop_db_def workshop_def bob_def row_def
          objects_filter_def exists_rows_def is_full_def confirmed_registrations_def)
  have org: "organizer workshop \<noteq> user_pk carol" by (simp add: workshop_def carol_def)
  have new: "\<not> exists_rows (objects_filter (registrations ?s') (user_pk carol) (event_pk workshop))"
    by (simp add: exists_rows_def objects_filter_def row_def carol_def)
  from capacity_after_n_registrations [OF cap n run org new, of 30] run
  show ?thesis by simp
qed

section \<open>One registration per user and event\<close>

text \<open>
  C1. In every reachable state there is at most one registration for each
  (user, event) pair, and a \<open>register\<close> call for an event of the table made when a
  registration for (user, event) exists fails with \<open>DuplicateRegistration\<close>; in
  particular a successful \<open>register\<close> followed by \<open>register\<close> for the same pair does.
\<close>

theorem registration_unique_in_reachable:
  assumes "reachable s"
  shows "(\<forall>u e. length (objects_filter (registrations s) u e) \<le> 1) \<and>
         (\<forall>now u e. e \<in> set (events s) \<longrightarrow>
            exists_rows (objects_filter (registrations s) (user_pk u) (event_pk e)) \<longrightarrow>
            register s now u e = (Inl DuplicateRegistration, s)) \<and>
         (\<forall>now now' u e r. fst (register s now u e) = Inr r \<longrightarrow>
            register (snd (register s now u e)) now' u e =
              (Inl DuplicateRegistration, snd (register s now u e)))"
proof (intro conjI allI impI)
  from assms have inv: "db_invariant s" by (rule reachable_invariant)
  show "length (objects_filter (registrations s) u e) \<le> 1" for u e
    using db_invariantD(1) [OF inv] by (rule unique_filter_le1)
  show "register s now u e = (Inl DuplicateRegistration, s)"
    if e: "e \<in> set (events s)"
      and ex: "exists_rows (objects_filter (registrations s) (user_pk u) (event_pk e))"
    for now u e
  proof -
    from ex obtain r where r: "r \<in> set (registrations s)"
      and ru: "reg_user r = user_pk u" and re: "reg_event r = event_pk e"
      by (auto simp: exists_rows_filter)
    from db_invariantD(5) [OF inv r e re] ru have "organizer e \<noteq> user_pk u" by simp
    with ex show ?thesis by (simp add: register_cases)
  qed
  show "register (snd (register s now u e)) now' u e =
          (Inl DuplicateRegistration, snd (register s now u e))"
    if ok: "fst (register s now u e) = Inr r" for now now' u e r
  proof -
    let ?s1 = "snd (register s now u e)"
    from register_success [OF ok]
    have org: "organizer e \<noteq> user_pk u"
      and rows: "registrations ?s1 = registrations s @ [r]"
      and ru: "reg_user r = user_pk u" and re: "reg_event r = event_pk e"
      by simp_all
    from rows ru re have "exists_rows (objects_filter (registrations ?s1) (user_pk u) (event_pk e))"
      by (simp add: exists_rows_def objects_filter_def)
    with org show ?thesis by (simp add: register_cases)
  qed
qed

theorem registration_unique_in_reachable_witness:
  "reachable (workshop_db\<lparr>registrations := [row 2 1 Confirmed]\<rparr>) \<and>
   length (objects_filter [row 2 1 Confirmed] 2 1) \<le> 1 \<and>
   register (workshop_db\<lparr>registrations := [row 2 1 Confirmed]\<rparr>) 30 bob workshop =
     (Inl DuplicateRegistration, workshop_db\<lparr>registrations := [row 2 1 Confirmed]\<rparr>)"
proof -
  let ?s1 = "workshop_db\<lparr>registrations := [row 2 1 Confirmed]\<rparr>"
  have "snd (create 2147483647 initial_db 10 alice workshop_draft) = workshop_db"
    by (simp add: create_def is_valid_def date_result_def max_attendees_result_def
          run_field_def char_field_def date_field_def integer_field_def validate_date_def
          validate_max_attendees_def field_errors_def strip_def is_space_def Let_def
          initial_db_def workshop_draft_def workshop_db_def workshop_def alice_def)
  with reach_create [OF reach_init, of 2147483647 10 alice workshop_draft]
  have r0: "reachable workshop_db" by simp
  have ev: "workshop \<in> set (events workshop_db)" by (simp add: workshop_db_def)
  have "snd (register workshop_db 20 bob workshop) = ?s1"
    by (simp add: register_cases workshop_db_def workshop_def bob_def row_def
          objects_filter_def exists_rows_def is_full_def confirmed_registrations_def)
  with reach_register [OF r0 ev, of 20 bob] have r1: "reachable ?s1" by simp
  have ev1: "workshop \<in> set (events ?s1)" by (simp add: workshop_db_def)
  have ex: "exists_rows (objects_filter (registrations ?s1) (user_pk bob) (event_pk workshop))"
    by (simp add: exists_rows_def objects_filter_def row_def bob_def workshop_def)
  from registration_unique_in_reachable [OF r1] ev1 ex
  have "length (objects_filter (registrations ?s1) 2 1) \<le> 1"
    and "register ?s1 30 bob workshop = (Inl DuplicateRegistration, ?s1)"
    by blast+
  with r1 show ?thesis by simp
qed

end
